theory Spec2Isabelle
  imports Main "HOL-Library.Multiset" "HOL-Library.Word"
begin

section \<open>Data model of index.js\<close>

text \<open>
  The bot keeps its state in module-level variables (\<open>quotes\<close>, \<open>_userQueues\<close>, \<open>users\<close>,
  \<open>greetedUsers\<close>) mirrored to files under \<open>./data\<close>. The model threads one record,
  \<open>world\<close>, through every function: the module variables, the files, and the parts of the
  environment the code consults (\<open>Math.random\<close>, the file system's willingness to write, the
  chat transport).
\<close>

text \<open>
  User and chat ids are the integers the chat transport hands out. A key of the object
  \<open>_userQueues\<close> is the decimal string of a user id and is identified with the id.
\<close>

type_synonym userId = int
type_synonym chatId = int

text \<open>What \<open>fs\<close>, \<open>JSON.parse\<close> and the transport can throw.\<close>

datatype error = ENOENT | SyntaxError | EACCES | TransportError

text \<open>A JavaScript value that may be \<open>undefined\<close> (\<open>[].shift()\<close>, \<open>quotes[i]\<close> out of range).\<close>

datatype 'a js = Undefined | Defined 'a

text \<open>One entry of \<open>_userQueues\<close>: \<open>{ queue: [...], version: n }\<close>.\<close>

record rotation =
  queue :: "int list"
  version :: int

text \<open>
  A value found under a key of the parsed \<open>user_queues.json\<close>: a bare number (the format
  \<open>loadUserQueues\<close> rewrites) or a \<open>{queue, version}\<close> object.
\<close>

datatype entry = Legacy int | Rot rotation

text \<open>
  The text \<open>fs.readFileSync\<close> returns, classified by what the code does with it: the empty
  string (falsy, and rejected by \<open>JSON.parse\<close>), a non-empty text \<open>JSON.parse\<close> rejects,
  or a text \<open>JSON.parse\<close> turns into the document \<open>d\<close>. A file is absent (\<open>None\<close>) or
  holds such a text.
\<close>

datatype 'd contents = EmptyText | CorruptText | JsonText 'd

type_synonym 'd jsonFile = "'d contents option"

text \<open>The outgoing messages, with the interpolated part of each template literal.\<close>

datatype message = Intro | DailyQuote string | ArchiveQuote string | ArticleLink string

record world =
  quotes :: "string list"
  userQueues :: "userId \<rightharpoonup> rotation"
  users :: "userId list"
  greetedUsers :: "userId list"
  queuesFile :: "(userId \<rightharpoonup> entry) jsonFile"
  usersFile :: "userId list jsonFile"
  greetedFile :: "userId list jsonFile"
  postedFile :: "string option"
  writable :: bool
  random :: "nat \<Rightarrow> 53 word"
  drawn :: nat
  blocked :: "chatId \<Rightarrow> bool"
  outbox :: "(chatId \<times> message) list"
  errorLog :: "chatId list"

text \<open>
  \<open>users\<close> and \<open>greetedUsers\<close> are JavaScript \<open>Set\<close>s: lists without duplicates in
  insertion order. \<open>writable\<close> says whether \<open>fs.writeFileSync\<close> and \<open>fs.appendFileSync\<close>
  succeed (they throw otherwise). \<open>random\<close> is the sequence of values \<open>Math.random()\<close>
  returns and \<open>drawn\<close> the number of calls made so far; a value is the double
  \<open>m / 2^53\<close> with \<open>m\<close> a 53-bit word, so that it lies in \<open>[0, 1)\<close>. \<open>blocked c\<close> says
  that \<open>bot.sendMessage(c, ...)\<close> rejects; \<open>outbox\<close> lists every call of
  \<open>bot.sendMessage\<close> and \<open>errorLog\<close> every recipient reported by \<open>console.error\<close>.
\<close>

section \<open>Primitives\<close>

text \<open>
  The product \<open>Math.random() * k\<close> is a double: the exact product \<open>p / 2^53\<close>, with
  \<open>p = m * k\<close>, rounded to 53 significant bits, ties to even. \<open>excessBits p\<close> is the
  number of bits of \<open>p\<close> beyond 53, and \<open>roundToDouble p\<close> the numerator of the rounded
  product over \<open>2^53\<close>.
\<close>

function excessBits :: "nat \<Rightarrow> nat" where
  "excessBits p = (if p < 2 ^ 53 then 0 else Suc (excessBits (p div 2)))"
  by pat_completeness auto
termination
  by (relation "measure (\<lambda>p. p)") auto

declare excessBits.simps [simp del]

definition roundToDouble :: "nat \<Rightarrow> nat" where
  "roundToDouble p =
     (let e = excessBits p; q = p div 2 ^ e; rest = p mod 2 ^ e
      in if 2 ^ e < 2 * rest \<or> (2 * rest = 2 ^ e \<and> odd q) then (q + 1) * 2 ^ e else q * 2 ^ e)"

text \<open>
  \<open>Math.floor(Math.random() * k)\<close> for the next value \<open>m / 2^53\<close> of the generator: the
  floor of the rounded product.
\<close>

definition randomIndex :: "world \<Rightarrow> nat \<Rightarrow> nat \<times> world" where
  "randomIndex w k =
     (roundToDouble (unat (random w (drawn w)) * k) div 2 ^ 53, w\<lparr>drawn := drawn w + 1\<rparr>)"

text \<open>\<open>set.has(x)\<close>, \<open>set.add(x)\<close> and \<open>new Set(list)\<close>.\<close>

definition setAdd :: "'a list \<Rightarrow> 'a \<Rightarrow> 'a list" where
  "setAdd s x = (if x \<in> set s then s else s @ [x])"

definition newSet :: "'a list \<Rightarrow> 'a list" where
  "newSet xs = foldl setAdd [] xs"

definition readFileSync :: "'d jsonFile \<Rightarrow> error + 'd contents" where
  "readFileSync f = (case f of None \<Rightarrow> Inl ENOENT | Some t \<Rightarrow> Inr t)"

definition JSON_parse :: "'d contents \<Rightarrow> error + 'd" where
  "JSON_parse t = (case t of JsonText d \<Rightarrow> Inr d | _ \<Rightarrow> Inl SyntaxError)"

definition JSON_stringify :: "'d \<Rightarrow> 'd contents" where
  "JSON_stringify d = JsonText d"

text \<open>\<open>bot.sendMessage(c, m)\<close>: the call is recorded; it rejects for a blocked recipient.\<close>

definition sendMessage :: "world \<Rightarrow> chatId \<Rightarrow> message \<Rightarrow> (error + unit) \<times> world" where
  "sendMessage w c m =
     (if blocked w c then Inl TransportError else Inr (), w\<lparr>outbox := outbox w @ [(c, m)]\<rparr>)"

text \<open>A template literal \<open>`...${q}...`\<close> prints \<open>undefined\<close> as the word.\<close>

definition interpolate :: "string js \<Rightarrow> string" where
  "interpolate q = (case q of Undefined \<Rightarrow> ''undefined'' | Defined s \<Rightarrow> s)"

section \<open>Shuffle queues per user\<close>

text \<open>
  \<open>for (let i = arr.length - 1; i > 0; i--) { j = floor(random() * (i + 1)); swap }\<close>.
  \<open>fyLoop i\<close> is the loop from index \<open>i\<close> down; on the empty array the source starts at
  \<open>-1\<close> and does nothing, as \<open>fyLoop 0\<close> does.
\<close>

fun fyLoop :: "nat \<Rightarrow> world \<Rightarrow> 'a list \<Rightarrow> 'a list \<times> world" where
  "fyLoop 0 w arr = (arr, w)"
| "fyLoop (Suc i) w arr =
     (let (j, w') = randomIndex w (Suc i + 1)
      in fyLoop i w' (arr[Suc i := arr ! j, j := arr ! Suc i]))"

definition fisherYatesShuffle :: "world \<Rightarrow> 'a list \<Rightarrow> 'a list \<times> world" where
  "fisherYatesShuffle w arr = fyLoop (length arr - 1) w arr"

definition buildNewQueue :: "world \<Rightarrow> int list \<times> world" where
  "buildNewQueue w = fisherYatesShuffle w (map int [0..<length (quotes w)])"

text \<open>\<open>fs.writeFileSync(USER_QUOTE_INDEX_FILE, JSON.stringify(state))\<close>.\<close>

definition saveUserQueues :: "world \<Rightarrow> (error + unit) \<times> world" where
  "saveUserQueues w =
     (if writable w
      then (Inr (), w\<lparr>queuesFile := Some (JSON_stringify (map_option Rot \<circ> userQueues w))\<rparr>)
      else (Inl EACCES, w))"

text \<open>\<open>arr.shift()\<close>: the first element and the rest; \<open>undefined\<close> on the empty array.\<close>

definition shift :: "'a list \<Rightarrow> 'a js \<times> 'a list" where
  "shift xs = (case xs of [] \<Rightarrow> (Undefined, []) | x # r \<Rightarrow> (Defined x, r))"

text \<open>\<open>quotes[i]\<close>: \<open>undefined\<close> for an index that is \<open>undefined\<close> or out of range.\<close>

definition quoteAt :: "string list \<Rightarrow> int js \<Rightarrow> string js" where
  "quoteAt qs i =
     (case i of Undefined \<Rightarrow> Undefined
      | Defined k \<Rightarrow> if 0 \<le> k \<and> k < int (length qs) then Defined (qs ! nat k) else Undefined)"

text \<open>
  Lines 70 to 74 of \<open>getNextQuoteForUser\<close>: the state of the user, or the default, and
  its regeneration when the version differs or the queue is empty.
\<close>

definition currentRotation :: "world \<Rightarrow> userId \<Rightarrow> rotation" where
  "currentRotation w userId =
     (case userQueues w userId of
        Some u \<Rightarrow> u
      | None \<Rightarrow> \<lparr>queue = [], version = int (length (quotes w))\<rparr>)"

definition stale :: "world \<Rightarrow> rotation \<Rightarrow> bool" where
  "stale w u = (version u \<noteq> int (length (quotes w)) \<or> queue u = [])"

definition getNextQuoteForUser :: "world \<Rightarrow> userId \<Rightarrow> (error + string js) \<times> world" where
  "getNextQuoteForUser w userId =
     (let user = currentRotation w userId;
          (user1, w1) =
             (if stale w user
              then (let (q, w') = buildNewQueue w
                    in (\<lparr>queue = q, version = int (length (quotes w))\<rparr>, w'))
              else (user, w));
          (nextIndex, rest) = shift (queue user1);
          w2 = w1\<lparr>userQueues := (userQueues w1)(userId \<mapsto> user1\<lparr>queue := rest\<rparr>)\<rparr>;
          (saved, w3) = saveUserQueues w2
      in (case saved of Inl e \<Rightarrow> Inl e | Inr _ \<Rightarrow> Inr (quoteAt (quotes w) nextIndex), w3))"

text \<open>\<open>n\<close> consecutive calls of \<open>getNextQuoteForUser\<close> for one user, with their results.\<close>

fun nextQuotes :: "nat \<Rightarrow> world \<Rightarrow> userId \<Rightarrow> (error + string js) list \<times> world" where
  "nextQuotes 0 w userId = ([], w)"
| "nextQuotes (Suc n) w userId =
     (let (r, w1) = getNextQuoteForUser w userId;
          (rs, w2) = nextQuotes n w1 userId
      in (r # rs, w2))"

text \<open>A sequence of calls of \<open>getNextQuoteForUser\<close>, one for each user of the list in turn.\<close>

definition runCalls :: "world \<Rightarrow> userId list \<Rightarrow> world" where
  "runCalls w us = foldl (\<lambda>w' u. snd (getNextQuoteForUser w' u)) w us"

text \<open>
  \<open>loadUserQueues\<close>: the parsed document with every bare number replaced; the empty object
  when reading or parsing throws.
\<close>

definition loadUserQueues :: "world \<Rightarrow> userId \<rightharpoonup> rotation" where
  "loadUserQueues w =
     (case readFileSync (queuesFile w) of
        Inl e \<Rightarrow> Map.empty
      | Inr raw \<Rightarrow>
          (case JSON_parse raw of
             Inl e \<Rightarrow> Map.empty
           | Inr parsed \<Rightarrow>
               (\<lambda>uid. case parsed uid of
                         None \<Rightarrow> None
                       | Some (Legacy n) \<Rightarrow> Some \<lparr>queue = [], version = int (length (quotes w))\<rparr>
                       | Some (Rot r) \<Rightarrow> Some r)))"

section \<open>Users and greeted users\<close>

definition loadUsers :: "world \<Rightarrow> userId list" where
  "loadUsers w =
     (case readFileSync (usersFile w) of
        Inl e \<Rightarrow> []
      | Inr raw \<Rightarrow> (case JSON_parse raw of Inl e \<Rightarrow> [] | Inr ids \<Rightarrow> newSet ids))"

definition saveUsers :: "world \<Rightarrow> (error + unit) \<times> world" where
  "saveUsers w =
     (if writable w
      then (Inr (), w\<lparr>usersFile := Some (JSON_stringify (users w))\<rparr>)
      else (Inl EACCES, w))"

text \<open>
  Line 94, outside any \<open>try\<close>:
  \<open>new Set(JSON.parse(fs.readFileSync(GREETED_USERS_FILE, "utf-8") || "[]"))\<close>.
\<close>

definition loadGreetedUsers :: "world \<Rightarrow> error + userId list" where
  "loadGreetedUsers w =
     (case readFileSync (greetedFile w) of
        Inl e \<Rightarrow> Inl e
      | Inr raw \<Rightarrow>
          (case JSON_parse (if raw = EmptyText then JSON_stringify [] else raw) of
             Inl e \<Rightarrow> Inl e
           | Inr ids \<Rightarrow> Inr (newSet ids)))"

text \<open>An inbound message: \<open>msg.from.id\<close>, \<open>msg.chat.id\<close>, \<open>msg.text\<close> (absent for a photo).\<close>

record msg =
  msg_from :: userId
  msg_chat :: chatId
  msg_text :: "string option"

definition startsWith :: "string \<Rightarrow> string \<Rightarrow> bool" where
  "startsWith s p = (take (length p) s = p)"

text \<open>Lines 116 to 119: store the user.\<close>

definition storeUser :: "world \<Rightarrow> msg \<Rightarrow> (error + unit) \<times> world" where
  "storeUser w m =
     (if msg_from m \<notin> set (users w)
      then saveUsers (w\<lparr>users := setAdd (users w) (msg_from m)\<rparr>)
      else (Inr (), w))"

text \<open>The condition of line 122; the empty string is falsy.\<close>

definition greetDue :: "world \<Rightarrow> msg \<Rightarrow> bool" where
  "greetDue w m =
     (msg_from m \<notin> set (greetedUsers w) \<and>
      (case msg_text m of None \<Rightarrow> False | Some t \<Rightarrow> t \<noteq> [] \<and> \<not> startsWith t ''/''))"

text \<open>
  The message handler runs synchronously up to its first \<open>await\<close>. \<open>greetBegin\<close> is lines
  112 to 124, up to the outcome of the awaited \<open>bot.sendMessage(chatId, introMsg)\<close>:
  \<open>Inr True\<close> when the introduction was sent, \<open>Inr False\<close> when the condition of line 122
  does not hold, \<open>Inl e\<close> when a call threw and the handler ended there.
\<close>

definition greetBegin :: "world \<Rightarrow> msg \<Rightarrow> (error + bool) \<times> world" where
  "greetBegin w m =
     (let (stored, w1) = storeUser w m
      in case stored of
           Inl e \<Rightarrow> (Inl e, w1)
         | Inr _ \<Rightarrow>
             if greetDue w1 m
             then (let (sent, w2) = sendMessage w1 (msg_chat m) Intro
                   in (case sent of Inl e \<Rightarrow> Inl e | Inr _ \<Rightarrow> Inr True, w2))
             else (Inr False, w1))"

text \<open>Lines 125 and 126, run when the awaited send has resolved.\<close>

definition greetCommit :: "world \<Rightarrow> msg \<Rightarrow> (error + unit) \<times> world" where
  "greetCommit w m =
     (let w1 = w\<lparr>greetedUsers := setAdd (greetedUsers w) (msg_from m)\<rparr>
      in if writable w1
         then (Inr (), w1\<lparr>greetedFile := Some (JSON_stringify (greetedUsers w1))\<rparr>)
         else (Inl EACCES, w1))"

text \<open>
  Lines 112 to 127 for one message whose handler is not interleaved with another one:
  the result says whether this message was greeted. The rest of the handler (the command
  filter and the AI reply) follows and touches none of the registries.
\<close>

definition greetOnce :: "world \<Rightarrow> msg \<Rightarrow> (error + bool) \<times> world" where
  "greetOnce w m =
     (let (r, w1) = greetBegin w m
      in case r of
           Inr True \<Rightarrow>
             (let (c, w2) = greetCommit w1 m
              in (case c of Inl e \<Rightarrow> Inl e | Inr _ \<Rightarrow> Inr True, w2))
         | _ \<Rightarrow> (r, w1))"

text \<open>The handler on a sequence of messages, one after the other, with the results.\<close>

fun greetAll :: "world \<Rightarrow> msg list \<Rightarrow> (error + bool) list \<times> world" where
  "greetAll w [] = ([], w)"
| "greetAll w (m # ms) =
     (let (r, w1) = greetOnce w m;
          (rs, w2) = greetAll w1 ms
      in (r # rs, w2))"

section \<open>Post quote and article\<close>


definition dummy :: "string list" where
  "dummy = [''https://example.com/article1'', ''https://example.com/article2'',
            ''https://example.com/article3'']"

text \<open>
  \<open>s.split("\n")\<close>: a newline closes the current line, any other character joins the
  first line of what follows (there always is one).
\<close>

fun splitLines :: "string \<Rightarrow> string list" where
  "splitLines [] = [] # []"
| "splitLines (c # cs) =
     (if c = CHR 0x0A then [] # splitLines cs
      else (case splitLines cs of [] \<Rightarrow> [c] # [] | l # ls \<Rightarrow> (c # l) # ls))"

text \<open>\<open>readLines\<close>: the non-empty lines, or none when the file cannot be read.\<close>

definition readLines :: "string option \<Rightarrow> string list" where
  "readLines f = (case f of None \<Rightarrow> [] | Some t \<Rightarrow> filter (\<lambda>l. l \<noteq> []) (splitLines t))"

text \<open>\<open>appendLine\<close>: \<open>fs.appendFileSync\<close> creates the file; a failure is swallowed.\<close>

definition appendLine :: "world \<Rightarrow> string \<Rightarrow> world" where
  "appendLine w line =
     (if writable w
      then w\<lparr>postedFile := Some ((case postedFile w of None \<Rightarrow> [] | Some t \<Rightarrow> t) @ line @ [CHR 0x0A])\<rparr>
      else w)"

definition getRandomArticle :: "world \<Rightarrow> string option \<times> world" where
  "getRandomArticle w =
     (let posted = readLines (postedFile w);
          options = filter (\<lambda>url. url \<notin> set posted) dummy
      in if options = [] then (None, w)
         else (let (k, w1) = randomIndex w (length options);
                   choice = options ! k
               in (Some choice, appendLine w1 choice)))"


text \<open>\<open>n\<close> consecutive calls of \<open>getRandomArticle\<close>, with their results.\<close>

fun randomArticles :: "nat \<Rightarrow> world \<Rightarrow> string option list \<times> world" where
  "randomArticles 0 w = ([], w)"
| "randomArticles (Suc n) w =
     (let (r, w1) = getRandomArticle w;
          (rs, w2) = randomArticles n w1
      in (r # rs, w2))"

section \<open>Daily quotes to individuals\<close>

text \<open>
  The callback of \<open>users.forEach\<close>: an \<open>async\<close> function, so that a throw of
  \<open>getNextQuoteForUser\<close> rejects its own promise only, and a rejected send is caught
  and logged.
\<close>

definition sendDailyQuote :: "world \<Rightarrow> userId \<Rightarrow> world" where
  "sendDailyQuote w uid =
     (let (q, w1) = getNextQuoteForUser w uid
      in case q of
           Inl e \<Rightarrow> w1
         | Inr quote \<Rightarrow>
             (let (sent, w2) = sendMessage w1 uid (DailyQuote (interpolate quote))
              in case sent of
                   Inl e \<Rightarrow> w2\<lparr>errorLog := errorLog w2 @ [uid]\<rparr>
                 | Inr _ \<Rightarrow> w2))"

definition sendDailyQuotesToUsers :: "world \<Rightarrow> world" where
  "sendDailyQuotesToUsers w = foldl sendDailyQuote w (users w)"

section \<open>Schedule and startup\<close>




text \<open>
  The module's top level, from the loaded corpus on: the three registries are read from
  their files (a throw of line 94 ends the module), then the daily quotes are sent once.
\<close>

definition startup :: "world \<Rightarrow> error + world" where
  "startup w =
     (let w1 = w\<lparr>userQueues := loadUserQueues w\<rparr>;
          w2 = w1\<lparr>users := loadUsers w1\<rparr>
      in case loadGreetedUsers w2 of
           Inl e \<Rightarrow> Inl e
         | Inr greeted \<Rightarrow> Inr (sendDailyQuotesToUsers (w2\<lparr>greetedUsers := greeted\<rparr>)))"

section \<open>Notions used in the statements\<close>

text \<open>
  The state of a user after lines 70 to 74 of \<open>getNextQuoteForUser\<close>, before the
  \<open>shift\<close>: regenerated when stale, the stored one otherwise.
\<close>

definition regenerated :: "world \<Rightarrow> userId \<Rightarrow> rotation" where
  "regenerated w u =
     (if stale w (currentRotation w u)
      then \<lparr>queue = fst (buildNewQueue w), version = int (length (quotes w))\<rparr>
      else currentRotation w u)"

text \<open>
  The invariant of a rotation state: indices in range, no index twice, and the queue is
  what is left of a permutation of \<open>[0, version)\<close> after a consumed prefix.
\<close>

definition rotationInv :: "rotation \<Rightarrow> bool" where
  "rotationInv r =
     ((\<forall>i \<in> set (queue r). 0 \<le> i \<and> i < version r) \<and> distinct (queue r) \<and>
      (\<exists>consumed. mset (consumed @ queue r) = mset (map int [0..<nat (version r)])))"

text \<open>An empty state, or one whose queue is a whole permutation of \<open>[0, version)\<close>.\<close>

definition freshOrEmpty :: "rotation \<Rightarrow> bool" where
  "freshOrEmpty r =
     (queue r = [] \<or> mset (queue r) = mset (map int [0..<nat (version r)]))"

text \<open>
  A fresh installation with the corpus \<open>qs\<close>: no data files, a store that accepts
  writes, a transport that accepts every message, \<open>Math.random()\<close> returning 0.
\<close>

definition freshWorld :: "string list \<Rightarrow> world" where
  "freshWorld qs =
     \<lparr>quotes = qs, userQueues = Map.empty, users = [], greetedUsers = [],
      queuesFile = None, usersFile = None, greetedFile = None, postedFile = None,
      writable = True, random = (\<lambda>_. 0), drawn = 0, blocked = (\<lambda>_. False),
      outbox = [], errorLog = []\<rparr>"

text \<open>A fresh installation whose \<open>posted_articles.txt\<close> lists the first two articles.\<close>

definition twoPosted :: world where
  "twoPosted = (freshWorld [])\<lparr>postedFile :=
     Some ''https://example.com/article1\<newline>https://example.com/article2\<newline>''\<rparr>"

text \<open>
  How often a user was greeted in a run of the handler over the messages \<open>ms\<close> with
  the results \<open>rs\<close>.
\<close>

definition greetedCount :: "userId \<Rightarrow> msg list \<Rightarrow> (error + bool) list \<Rightarrow> nat" where
  "greetedCount u ms rs =
     length (filter (\<lambda>(m, r). msg_from m = u \<and> r = Inr True) (zip ms rs))"

text \<open>A first text message of user 7 in a private chat.\<close>

definition hello :: msg where
  "hello = \<lparr>msg_from = 7, msg_chat = 7, msg_text = Some ''hello''\<rparr>"

section \<open>Properties of the shuffle\<close>

lemma excessBits_zero: "p < 2 ^ 53 \<Longrightarrow> excessBits p = 0"
  by (simp add: excessBits.simps)

lemma excessBits_lower: "0 < excessBits p \<Longrightarrow> 2 ^ (52 + excessBits p) \<le> p"
proof (induction p rule: excessBits.induct)
  case (1 p)
  show ?case
  proof (cases "p < 2 ^ 53")
    case True
    with "1.prems" show ?thesis by (simp add: excessBits.simps)
  next
    case False
    then have e: "excessBits p = Suc (excessBits (p div 2))" by (simp add: excessBits.simps [of p])
    show ?thesis
    proof (cases "0 < excessBits (p div 2)")
      case True
      with "1.IH" False have "2 ^ (52 + excessBits (p div 2)) \<le> p div 2" by simp
      then have "2 * 2 ^ (52 + excessBits (p div 2)) \<le> p" by simp
      moreover have "(2::nat) ^ (52 + Suc (excessBits (p div 2))) = 2 * 2 ^ (52 + excessBits (p div 2))"
        by (simp only: add_Suc_right power_Suc)
      ultimately show ?thesis by (simp only: e)
    next
      case False
      with \<open>\<not> p < 2 ^ 53\<close> show ?thesis by (simp add: e)
    qed
  qed
qed

lemma roundToDouble_exact: "p < 2 ^ 53 \<Longrightarrow> roundToDouble p = p"
  by (simp add: roundToDouble_def excessBits_zero)

lemma roundToDouble_less:
  assumes "m < 2 ^ 53" and "0 < k"
  shows "roundToDouble (m * k) < 2 ^ 53 * k"
proof -
  let ?p = "m * k"
  let ?e = "excessBits ?p"
  let ?q = "?p div 2 ^ ?e"
  let ?rest = "?p mod 2 ^ ?e"
  have p: "?p + k \<le> 2 ^ 53 * k"
  proof -
    have "m + 1 \<le> 2 ^ 53" using assms(1) by simp
    then have "(m + 1) * k \<le> 2 ^ 53 * k" by (rule mult_le_mono1)
    then show ?thesis by (simp add: algebra_simps)
  qed
  have split: "?q * 2 ^ ?e + ?rest = ?p" by (rule div_mult_mod_eq)
  show ?thesis
  proof (cases "2 ^ ?e < 2 * ?rest \<or> (2 * ?rest = 2 ^ ?e \<and> odd ?q)")
    case False
    then have "roundToDouble ?p = ?q * 2 ^ ?e" by (simp add: roundToDouble_def Let_def)
    also have "\<dots> \<le> ?p" using split by linarith
    also have "\<dots> < 2 ^ 53 * k" using p assms(2) by linarith
    finally show ?thesis .
  next
    case True
    then have up: "roundToDouble ?p = (?q + 1) * 2 ^ ?e" and half: "2 ^ ?e \<le> 2 * ?rest"
      by (auto simp: roundToDouble_def Let_def)
    have "0 < ?rest" using half by (cases "?rest = 0") simp_all
    then have pos: "0 < ?e" by (cases "?e = 0") simp_all
    have "2 ^ (52 + ?e) \<le> ?p" using pos by (rule excessBits_lower)
    also have "?p < 2 ^ 53 * k" using p assms(2) by linarith
    finally have "(2::nat) ^ 52 * 2 ^ ?e < 2 ^ 52 * (2 * k)" by (simp add: power_add)
    then have small: "(2::nat) ^ ?e < 2 * k" by simp
    have "2 * roundToDouble ?p = 2 * (?q * 2 ^ ?e) + 2 * 2 ^ ?e" by (simp only: up) (simp add: algebra_simps)
    also have "\<dots> \<le> 2 * (?q * 2 ^ ?e) + 2 * ?rest + 2 ^ ?e" using half by simp
    also have "\<dots> = 2 * ?p + 2 ^ ?e" using split by linarith
    also have "\<dots> < 2 * ?p + 2 * k" using small by simp
    also have "\<dots> \<le> 2 * (2 ^ 53 * k)" using p by simp
    finally show ?thesis by simp
  qed
qed

lemma roundToDouble_zero [simp]: "roundToDouble 0 = 0"
  by (simp add: roundToDouble_exact)

lemma randomIndex_less: "0 < k \<Longrightarrow> fst (randomIndex w k) < k"
proof -
  assume k: "0 < k"
  have "unat (random w (drawn w)) < 2 ^ 53"
    using unsigned_less [of "random w (drawn w)"] by simp
  then have "roundToDouble (unat (random w (drawn w)) * k) < 2 ^ 53 * k"
    using k by (rule roundToDouble_less)
  then show ?thesis
    by (simp add: randomIndex_def less_mult_imp_div_less mult.commute)
qed

lemma randomIndex_quotes [simp]: "quotes (snd (randomIndex w k)) = quotes w"
  by (simp add: randomIndex_def)

lemma fyLoop_mset: "i < length arr \<Longrightarrow> mset (fst (fyLoop i w arr)) = mset arr"
proof (induction i arbitrary: w arr)
  case 0
  then show ?case by simp
next
  case (Suc i)
  obtain j w' where r: "randomIndex w (Suc i + 1) = (j, w')" by (cases "randomIndex w (Suc i + 1)")
  have "fst (randomIndex w (Suc i + 1)) < Suc i + 1" by (rule randomIndex_less) simp
  with r have j: "j < length arr" using Suc.prems by simp
  let ?arr = "arr[Suc i := arr ! j, j := arr ! Suc i]"
  have "mset ?arr = mset arr" using Suc.prems j by (simp add: mset_swap)
  moreover have "mset (fst (fyLoop i w' ?arr)) = mset ?arr"
    using Suc.prems by (intro Suc.IH) simp
  ultimately show ?case using r by simp
qed

lemma fyLoop_world: "snd (fyLoop i w arr) = w\<lparr>drawn := drawn w + i\<rparr>"
  by (induction i arbitrary: w arr) (simp_all add: randomIndex_def split: prod.splits)

lemma fisherYatesShuffle_mset: "mset (fst (fisherYatesShuffle w arr)) = mset arr"
  by (cases "arr = []") (simp_all add: fisherYatesShuffle_def fyLoop_mset)

lemma buildNewQueue_mset: "mset (fst (buildNewQueue w)) = mset (map int [0..<length (quotes w)])"
  by (simp add: buildNewQueue_def fisherYatesShuffle_mset)

lemma buildNewQueue_world: "snd (buildNewQueue w) = w\<lparr>drawn := drawn w + (length (quotes w) - 1)\<rparr>"
  by (simp add: buildNewQueue_def fisherYatesShuffle_def fyLoop_world)

lemma buildNewQueue_length: "length (fst (buildNewQueue w)) = length (quotes w)"
  using buildNewQueue_mset [of w, THEN arg_cong, of size] by simp

lemma buildNewQueue_set: "set (fst (buildNewQueue w)) = int ` {0..<length (quotes w)}"
  using buildNewQueue_mset [of w, THEN arg_cong, of set_mset] by simp

lemma buildNewQueue_distinct: "distinct (fst (buildNewQueue w))"
proof -
  have "distinct (map int [0..<length (quotes w)])" by (simp add: distinct_map)
  then show ?thesis using buildNewQueue_mset [of w] mset_eq_imp_distinct_iff by blast
qed

lemma buildNewQueue_two:
  "quotes w = [a, b] \<Longrightarrow> random w (drawn w) = 0 \<Longrightarrow> fst (buildNewQueue w) = [1, 0]"
  by (simp add: buildNewQueue_def fisherYatesShuffle_def randomIndex_def upt_rec)

lemma getNext_world:
  "snd (getNextQuoteForUser w u) =
     w\<lparr>userQueues := (userQueues w)(u \<mapsto> (regenerated w u)\<lparr>queue := tl (queue (regenerated w u))\<rparr>),
       queuesFile :=
         (if writable w
          then Some (JSON_stringify (map_option Rot \<circ>
                 (userQueues w)(u \<mapsto> (regenerated w u)\<lparr>queue := tl (queue (regenerated w u))\<rparr>)))
          else queuesFile w),
       drawn := (if stale w (currentRotation w u) then drawn w + (length (quotes w) - 1) else drawn w)\<rparr>"
  unfolding getNextQuoteForUser_def regenerated_def Let_def
  using buildNewQueue_world [of w]
  by (cases "buildNewQueue w")
     (auto simp: saveUserQueues_def shift_def split: prod.splits list.splits)

lemma getNext_result:
  "fst (getNextQuoteForUser w u) =
     (if writable w
      then Inr (quoteAt (quotes w) (case queue (regenerated w u) of [] \<Rightarrow> Undefined | i # _ \<Rightarrow> Defined i))
      else Inl EACCES)"
  unfolding getNextQuoteForUser_def regenerated_def Let_def
  using buildNewQueue_world [of w]
  by (cases "buildNewQueue w")
     (auto simp: saveUserQueues_def shift_def split: prod.splits list.splits)

lemma getNext_userQueues:
  "userQueues (snd (getNextQuoteForUser w u)) =
     (userQueues w)(u \<mapsto> (regenerated w u)\<lparr>queue := tl (queue (regenerated w u))\<rparr>)"
  by (simp add: getNext_world)

lemma getNext_quotes: "quotes (snd (getNextQuoteForUser w u)) = quotes w"
  by (simp add: getNext_world)

lemma getNext_writable: "writable (snd (getNextQuoteForUser w u)) = writable w"
  by (simp add: getNext_world)

lemma regenerated_version: "version (regenerated w u) = int (length (quotes w))"
  by (simp add: regenerated_def stale_def)

lemma regenerated_after:
  assumes "tl (queue (regenerated w u)) \<noteq> []"
  shows "regenerated (snd (getNextQuoteForUser w u)) u =
           (regenerated w u)\<lparr>queue := tl (queue (regenerated w u))\<rparr>"
  using assms
  by (simp add: regenerated_def [of "snd (getNextQuoteForUser w u)"] currentRotation_def
      getNext_userQueues getNext_quotes stale_def regenerated_version)

lemma nextQuotes_take:
  assumes "writable w" "k \<le> length (queue (regenerated w u))"
  shows "fst (nextQuotes k w u) =
           map (\<lambda>i. Inr (quoteAt (quotes w) (Defined i))) (take k (queue (regenerated w u)))"
  using assms
proof (induction k arbitrary: w)
  case 0
  then show ?case by simp
next
  case (Suc k)
  let ?w1 = "snd (getNextQuoteForUser w u)"
  obtain i rest where q: "queue (regenerated w u) = i # rest"
    using Suc.prems(2) by (cases "queue (regenerated w u)") auto
  have first: "fst (getNextQuoteForUser w u) = Inr (quoteAt (quotes w) (Defined i))"
    using Suc.prems(1) q by (simp add: getNext_result)
  have rest: "fst (nextQuotes k ?w1 u) = map (\<lambda>i. Inr (quoteAt (quotes w) (Defined i))) (take k rest)"
  proof (cases k)
    case 0
    then show ?thesis by simp
  next
    case (Suc k')
    with Suc.prems(2) q have ne: "tl (queue (regenerated w u)) \<noteq> []" by auto
    have r1: "queue (regenerated ?w1 u) = rest"
      using regenerated_after [OF ne] q by simp
    have "fst (nextQuotes k ?w1 u) =
            map (\<lambda>i. Inr (quoteAt (quotes ?w1) (Defined i))) (take k (queue (regenerated ?w1 u)))"
      using Suc.prems q r1 by (intro Suc.IH) (simp_all add: getNext_writable)
    then show ?thesis by (simp add: r1 getNext_quotes)
  qed
  show ?case using first rest q
    by (simp add: split_beta)
qed

section \<open>The rotation serves every item once per generation\<close>

lemma quoteAt_int: "k < length qs \<Longrightarrow> quoteAt qs (Defined (int k)) = Defined (qs ! k)"
  by (simp add: quoteAt_def)

lemma stale_regenerated:
  "stale w (currentRotation w u) \<Longrightarrow> queue (regenerated w u) = fst (buildNewQueue w)"
  by (simp add: regenerated_def)

lemma mset_quotes_of_perm:
  assumes "mset p = mset [0..<length qs]"
  shows "mset (map (\<lambda>k. f (qs ! k)) p) = mset (map f qs)"
proof -
  have "mset (map (\<lambda>k. f (qs ! k)) p) = image_mset (\<lambda>k. f (qs ! k)) (mset p)" by simp
  also have "\<dots> = mset (map (\<lambda>k. f (qs ! k)) [0..<length qs])" using assms by simp
  also have "map (\<lambda>k. f (qs ! k)) [0..<length qs] = map f (map ((!) qs) [0..<length qs])" by simp
  also have "\<dots> = map f qs" by (simp only: map_nth)
  finally show ?thesis .
qed

text \<open>
  Claim C2. For every user and every non-empty corpus, when a generation starts at the
  first call (the user has no state, an empty queue or another version) and the store
  accepts the writes, the consecutive calls of \<open>getNextQuoteForUser\<close> return the corpus
  items at the positions of one permutation \<open>p\<close> of \<open>[0, quotes.length)\<close>: the first
  \<open>k\<close> calls return the items at the first \<open>k\<close> positions of \<open>p\<close>, which are pairwise
  distinct positions, and after exactly \<open>quotes.length\<close> calls the multiset of the
  returned items is the whole corpus, each item once.
\<close>

theorem rotation_permutation:
  assumes "quotes w \<noteq> []" and "writable w" and "stale w (currentRotation w u)"
  shows "\<exists>p. mset p = mset [0..<length (quotes w)] \<and> distinct p \<and>
             (\<forall>k \<le> length (quotes w).
                fst (nextQuotes k w u) = map (\<lambda>i. Inr (Defined (quotes w ! i))) (take k p)) \<and>
             mset (fst (nextQuotes (length (quotes w)) w u)) =
               mset (map (\<lambda>q. Inr (Defined q)) (quotes w))"
proof -
  let ?n = "length (quotes w)"
  let ?q = "fst (buildNewQueue w)"
  let ?p = "map nat ?q"
  have q: "queue (regenerated w u) = ?q" using assms(3) by (rule stale_regenerated)
  have "map (int \<circ> nat) ?q = ?q"
    by (rule map_idI) (use buildNewQueue_set [of w] in auto)
  then have ints: "map int ?p = ?q" by simp
  have "mset ?p = image_mset nat (mset ?q)" by simp
  also have "\<dots> = mset (map nat (map int [0..<?n]))" by (simp only: buildNewQueue_mset mset_map)
  also have "map nat (map int [0..<?n]) = [0..<?n]" by (simp add: map_idI)
  finally have perm: "mset ?p = mset [0..<?n]" .
  have dist: "distinct ?p"
    using perm mset_eq_imp_distinct_iff [of ?p "[0..<?n]"] by simp
  have range: "\<forall>i \<in> set ?p. i < ?n"
    using perm mset_eq_setD [of ?p "[0..<?n]"] by auto
  have calls: "fst (nextQuotes k w u) = map (\<lambda>i. Inr (Defined (quotes w ! i))) (take k ?p)"
    if "k \<le> ?n" for k
  proof -
    have "fst (nextQuotes k w u) = map (\<lambda>i. Inr (quoteAt (quotes w) (Defined i))) (take k ?q)"
      using nextQuotes_take [of w k u] assms(2) that q buildNewQueue_length [of w] by simp
    also have "take k ?q = map int (take k ?p)" using ints by (simp add: take_map [symmetric])
    also have "map (\<lambda>i. Inr (quoteAt (quotes w) (Defined i))) (map int (take k ?p)) =
               map (\<lambda>i. Inr (Defined (quotes w ! i))) (take k ?p)"
    proof -
      have "quoteAt (quotes w) (Defined (int i)) = Defined (quotes w ! i)"
        if "i \<in> set (take k ?p)" for i
        using that range in_set_takeD [of i k ?p] by (intro quoteAt_int) blast
      then show ?thesis by simp
    qed
    finally show ?thesis .
  qed
  have "length ?p = ?n" by (simp add: buildNewQueue_length)
  then have "fst (nextQuotes ?n w u) = map (\<lambda>i. Inr (Defined (quotes w ! i))) ?p"
    using calls [of ?n] by simp
  then have "mset (fst (nextQuotes ?n w u)) = mset (map (\<lambda>q. Inr (Defined q)) (quotes w))"
    using mset_quotes_of_perm [OF perm, of "\<lambda>q. Inr (Defined q)"] by simp
  with perm dist calls show ?thesis by blast
qed

theorem rotation_permutation_witness:
  "quotes (freshWorld [''a'', ''b'']) \<noteq> [] \<and> writable (freshWorld [''a'', ''b'']) \<and>
   stale (freshWorld [''a'', ''b'']) (currentRotation (freshWorld [''a'', ''b'']) 1) \<and>
   mset (fst (nextQuotes 2 (freshWorld [''a'', ''b'']) 1)) =
     mset [Inr (Defined ''a''), Inr (Defined ''b'')]"
proof -
  let ?w = "freshWorld [''a'', ''b'']"
  have h1: "quotes ?w \<noteq> []" by (simp add: freshWorld_def)
  have h2: "writable ?w" by (simp add: freshWorld_def)
  have h3: "stale ?w (currentRotation ?w 1)"
    by (simp add: freshWorld_def stale_def currentRotation_def)
  from rotation_permutation [OF h1 h2 h3]
  have "mset (fst (nextQuotes (length (quotes ?w)) ?w 1)) =
          mset (map (\<lambda>q. Inr (Defined q)) (quotes ?w))"
    by blast
  moreover have n: "length (quotes ?w) = 2" and qs: "quotes ?w = [''a'', ''b'']"
    by (simp_all add: freshWorld_def)
  ultimately have "mset (fst (nextQuotes 2 ?w 1)) = mset (map (\<lambda>q. Inr (Defined q)) (quotes ?w))"
    by (simp only:)
  then have "mset (fst (nextQuotes 2 ?w 1)) = mset [Inr (Defined ''a''), Inr (Defined ''b'')]"
    by (simp add: qs)
  with h1 h2 h3 show ?thesis by blast
qed

section \<open>Version invalidation\<close>

text \<open>
  Claim C4. For every user whose stored rotation state has a version different from the
  current corpus length, or an empty queue, the next call of \<open>getNextQuoteForUser\<close>
  builds a fresh queue, a permutation of \<open>[0, quotes.length)\<close> of full length, sets the
  version to the corpus length and only then shifts: the stored state afterwards is the
  fresh queue without its first index, and the item returned is the one at that index.
\<close>

theorem stale_regenerates:
  assumes "userQueues w u = Some r"
    and "version r \<noteq> int (length (quotes w)) \<or> queue r = []"
  shows "mset (fst (buildNewQueue w)) = mset (map int [0..<length (quotes w)]) \<and>
         length (fst (buildNewQueue w)) = length (quotes w) \<and>
         userQueues (snd (getNextQuoteForUser w u)) u =
           Some \<lparr>queue = tl (fst (buildNewQueue w)), version = int (length (quotes w))\<rparr> \<and>
         fst (getNextQuoteForUser w u) =
           (if writable w
            then Inr (quoteAt (quotes w)
                   (case fst (buildNewQueue w) of [] \<Rightarrow> Undefined | i # _ \<Rightarrow> Defined i))
            else Inl EACCES)"
proof -
  have "stale w (currentRotation w u)"
    using assms by (simp add: stale_def currentRotation_def)
  then have "regenerated w u = \<lparr>queue = fst (buildNewQueue w), version = int (length (quotes w))\<rparr>"
    by (simp add: regenerated_def)
  then show ?thesis
    by (simp add: getNext_userQueues getNext_result buildNewQueue_mset buildNewQueue_length)
qed

theorem stale_regenerates_witness:
  "userQueues ((freshWorld [''a'', ''b''])\<lparr>userQueues := [1 \<mapsto> \<lparr>queue = [0], version = 1\<rparr>]\<rparr>) 1 =
     Some \<lparr>queue = [0], version = 1\<rparr> \<and>
   (1::int) \<noteq> int (length (quotes ((freshWorld [''a'', ''b''])\<lparr>userQueues := [1 \<mapsto> \<lparr>queue = [0], version = 1\<rparr>]\<rparr>))) \<and>
   userQueues (snd (getNextQuoteForUser
       ((freshWorld [''a'', ''b''])\<lparr>userQueues := [1 \<mapsto> \<lparr>queue = [0], version = 1\<rparr>]\<rparr>) 1)) 1 =
     Some \<lparr>queue = [0], version = 2\<rparr> \<and>
   fst (getNextQuoteForUser
       ((freshWorld [''a'', ''b''])\<lparr>userQueues := [1 \<mapsto> \<lparr>queue = [0], version = 1\<rparr>]\<rparr>) 1) =
     Inr (Defined ''b'')"
proof -
  let ?r = "\<lparr>queue = [0], version = 1\<rparr>"
  let ?w = "(freshWorld [''a'', ''b''])\<lparr>userQueues := [1 \<mapsto> ?r]\<rparr>"
  have h1: "userQueues ?w 1 = Some ?r" by simp
  have h2: "version ?r \<noteq> int (length (quotes ?w)) \<or> queue ?r = []"
    by (simp add: freshWorld_def)
  have q: "fst (buildNewQueue ?w) = [1, 0]"
    by (rule buildNewQueue_two [of _ "''a''" "''b''"]) (simp_all add: freshWorld_def)
  show ?thesis
    using stale_regenerates [OF h1 h2]
    by (simp add: q) (simp add: freshWorld_def quoteAt_def)
qed

section \<open>The invariant of the rotation states\<close>

lemma rotationInv_empty: "queue r = [] \<Longrightarrow> rotationInv r"
  unfolding rotationInv_def by (auto intro: exI [of _ "map int [0..<nat (version r)]"])

lemma rotationInv_fresh:
  assumes "mset (queue r) = mset (map int [0..<nat (version r)])"
  shows "rotationInv r"
proof -
  have "distinct (map int [0..<nat (version r)])" by (simp add: distinct_map)
  then have "distinct (queue r)" using assms mset_eq_imp_distinct_iff by blast
  moreover have "set (queue r) = int ` {0..<nat (version r)}"
    using assms [THEN arg_cong, of set_mset] by simp
  then have "\<forall>i \<in> set (queue r). 0 \<le> i \<and> i < version r" by auto
  moreover have "mset ([] @ queue r) = mset (map int [0..<nat (version r)])" using assms by simp
  ultimately show ?thesis unfolding rotationInv_def by blast
qed

lemma rotationInv_tl:
  assumes "rotationInv r"
  shows "rotationInv (r\<lparr>queue := tl (queue r)\<rparr>)"
proof (cases "queue r")
  case Nil
  with assms show ?thesis by (simp add: rotationInv_def)
next
  case (Cons i rest)
  from assms obtain consumed where
    c: "mset (consumed @ queue r) = mset (map int [0..<nat (version r)])"
    unfolding rotationInv_def by blast
  have "mset ((consumed @ [i]) @ rest) = mset (map int [0..<nat (version r)])"
    using c Cons by simp
  then have "\<exists>c'. mset (c' @ rest) = mset (map int [0..<nat (version r)])" by blast
  then show ?thesis using assms Cons unfolding rotationInv_def by simp
qed

lemma rotationInv_regenerated:
  assumes "\<forall>r. userQueues w u = Some r \<longrightarrow> rotationInv r"
  shows "rotationInv (regenerated w u)"
proof (cases "stale w (currentRotation w u)")
  case True
  then have "regenerated w u = \<lparr>queue = fst (buildNewQueue w), version = int (length (quotes w))\<rparr>"
    by (simp add: regenerated_def)
  then show ?thesis by (simp add: rotationInv_fresh buildNewQueue_mset)
next
  case False
  then have r: "regenerated w u = currentRotation w u" by (simp add: regenerated_def)
  show ?thesis
  proof (cases "userQueues w u")
    case None
    then show ?thesis using r by (simp add: currentRotation_def rotationInv_empty)
  next
    case (Some r')
    then show ?thesis using r assms by (simp add: currentRotation_def)
  qed
qed

lemma getNext_rotationInv:
  assumes "\<forall>v r. userQueues w v = Some r \<longrightarrow> rotationInv r"
  shows "\<forall>v r. userQueues (snd (getNextQuoteForUser w u)) v = Some r \<longrightarrow> rotationInv r"
proof -
  have "rotationInv ((regenerated w u)\<lparr>queue := tl (queue (regenerated w u))\<rparr>)"
    using assms by (intro rotationInv_tl rotationInv_regenerated) blast
  then show ?thesis using assms by (simp add: getNext_userQueues)
qed

lemma runCalls_rotationInv:
  assumes "\<forall>v r. userQueues w v = Some r \<longrightarrow> rotationInv r"
  shows "\<forall>v r. userQueues (runCalls w us) v = Some r \<longrightarrow> rotationInv r"
  using assms unfolding runCalls_def
proof (induction us arbitrary: w)
  case Nil
  then show ?case by simp
next
  case (Cons u us)
  from getNext_rotationInv [OF Cons.prems, of u] show ?case
    by (simp only: foldl_Cons) (rule Cons.IH)
qed

text \<open>
  Claim C8. Start from a world in which every stored rotation state is empty or freshly
  regenerated (its queue a whole permutation of \<open>[0, version)\<close>). After any sequence of
  calls of \<open>getNextQuoteForUser\<close>, for any users in any order, every stored state has all
  its indices in \<open>[0, version)\<close>, no index twice, and its queue is a permutation of
  \<open>[0, version)\<close> without a consumed prefix.
\<close>

theorem reachable_rotation_invariant:
  assumes "\<forall>v r. userQueues w v = Some r \<longrightarrow> freshOrEmpty r"
    and "userQueues (runCalls w us) u = Some r"
  shows "(\<forall>i \<in> set (queue r). 0 \<le> i \<and> i < version r) \<and> distinct (queue r) \<and>
         (\<exists>consumed. mset (consumed @ queue r) = mset (map int [0..<nat (version r)]))"
proof -
  have "\<forall>v r. userQueues w v = Some r \<longrightarrow> rotationInv r"
    using assms(1) rotationInv_empty rotationInv_fresh unfolding freshOrEmpty_def by blast
  then have "rotationInv r" using runCalls_rotationInv assms(2) by blast
  then show ?thesis unfolding rotationInv_def .
qed

theorem reachable_rotation_invariant_witness:
  "userQueues (runCalls (freshWorld [''a'', ''b'']) [1, 2, 1]) 1 = Some \<lparr>queue = [], version = 2\<rparr> \<and>
   userQueues (runCalls (freshWorld [''a'', ''b'']) [1, 2, 1]) 2 = Some \<lparr>queue = [0], version = 2\<rparr> \<and>
   distinct (queue \<lparr>queue = [0], version = 2\<rparr>) \<and>
   (\<exists>consumed. mset (consumed @ queue \<lparr>queue = [0], version = 2\<rparr>) =
      mset (map int [0..<nat (version \<lparr>queue = [0], version = 2\<rparr>)]))"
proof -
  let ?w = "freshWorld [''a'', ''b'']"
  have h1: "\<forall>v r. userQueues ?w v = Some r \<longrightarrow> freshOrEmpty r"
    by (simp add: freshWorld_def)
  have r1: "userQueues (runCalls ?w [1, 2, 1]) 1 = Some \<lparr>queue = [], version = 2\<rparr>"
    by (simp add: runCalls_def getNext_world regenerated_def currentRotation_def stale_def
        buildNewQueue_two [of _ "''a''" "''b''"] freshWorld_def)
  have r2: "userQueues (runCalls ?w [1, 2, 1]) 2 = Some \<lparr>queue = [0], version = 2\<rparr>"
    by (simp add: runCalls_def getNext_world regenerated_def currentRotation_def stale_def
        buildNewQueue_two [of _ "''a''" "''b''"] freshWorld_def)
  from reachable_rotation_invariant [OF h1 r2] r1 r2 show ?thesis by blast
qed

section \<open>Legacy entries of the rotation document\<close>

lemma loadUserQueues_legacy:
  assumes "queuesFile w = Some (JsonText doc)" and "doc u = Some (Legacy k)"
  shows "loadUserQueues w u = Some \<lparr>queue = [], version = int (length (quotes w))\<rparr>"
  using assms by (simp add: loadUserQueues_def readFileSync_def JSON_parse_def)

lemma stale_empty_queue:
  "userQueues w u = Some r \<Longrightarrow> queue r = [] \<Longrightarrow> stale w (currentRotation w u)"
  by (simp add: stale_def currentRotation_def)

lemma fyLoop_fst_cong:
  "random w' = random w \<Longrightarrow> drawn w' = drawn w \<Longrightarrow> fst (fyLoop i w' arr) = fst (fyLoop i w arr)"
proof (induction i arbitrary: w w' arr)
  case 0
  then show ?case by simp
next
  case (Suc i)
  have "fst (fyLoop i (w'\<lparr>drawn := drawn w' + 1\<rparr>) a) = fst (fyLoop i (w\<lparr>drawn := drawn w + 1\<rparr>) a)"
    for a :: "'a list"
    using Suc.prems by (intro Suc.IH) simp_all
  then show ?case using Suc.prems by (simp add: randomIndex_def)
qed

lemma buildNewQueue_userQueues: "fst (buildNewQueue (w\<lparr>userQueues := q\<rparr>)) = fst (buildNewQueue w)"
  unfolding buildNewQueue_def fisherYatesShuffle_def
  by (simp, rule fyLoop_fst_cong) simp_all

text \<open>
  Claim C10. When the parsed \<open>user_queues.json\<close> holds a bare number for a user,
  \<open>loadUserQueues\<close> replaces the entry by \<open>{queue: [], version: quotes.length}\<close>, and the
  next call of \<open>getNextQuoteForUser\<close> for that user regenerates a fresh shuffled queue
  and serves its first index; the number plays no part.
\<close>

theorem legacy_entry_regenerates:
  assumes "queuesFile w = Some (JsonText doc)" and "doc u = Some (Legacy k)"
  shows "loadUserQueues w u = Some \<lparr>queue = [], version = int (length (quotes w))\<rparr> \<and>
         mset (fst (buildNewQueue w)) = mset (map int [0..<length (quotes w)]) \<and>
         userQueues (snd (getNextQuoteForUser (w\<lparr>userQueues := loadUserQueues w\<rparr>) u)) u =
           Some \<lparr>queue = tl (fst (buildNewQueue w)), version = int (length (quotes w))\<rparr> \<and>
         fst (getNextQuoteForUser (w\<lparr>userQueues := loadUserQueues w\<rparr>) u) =
           (if writable w
            then Inr (quoteAt (quotes w)
                   (case fst (buildNewQueue w) of [] \<Rightarrow> Undefined | i # _ \<Rightarrow> Defined i))
            else Inl EACCES)"
proof -
  let ?w = "w\<lparr>userQueues := loadUserQueues w\<rparr>"
  have loaded: "loadUserQueues w u = Some \<lparr>queue = [], version = int (length (quotes w))\<rparr>"
    using assms by (rule loadUserQueues_legacy)
  then have "stale ?w (currentRotation ?w u)"
    by (intro stale_empty_queue [where r = "\<lparr>queue = [], version = int (length (quotes w))\<rparr>"]) simp_all
  then have "regenerated ?w u = \<lparr>queue = fst (buildNewQueue w), version = int (length (quotes w))\<rparr>"
    by (simp add: regenerated_def buildNewQueue_userQueues)
  then show ?thesis using loaded
    by (simp add: getNext_userQueues getNext_result buildNewQueue_mset)
qed

theorem legacy_entry_regenerates_witness:
  "loadUserQueues ((freshWorld [''a'', ''b''])\<lparr>queuesFile := Some (JsonText [1 \<mapsto> Legacy 5])\<rparr>) 1 =
     Some \<lparr>queue = [], version = 2\<rparr> \<and>
   userQueues (snd (getNextQuoteForUser
       ((freshWorld [''a'', ''b''])\<lparr>queuesFile := Some (JsonText [1 \<mapsto> Legacy 5]),
          userQueues := loadUserQueues
            ((freshWorld [''a'', ''b''])\<lparr>queuesFile := Some (JsonText [1 \<mapsto> Legacy 5])\<rparr>)\<rparr>) 1)) 1 =
     Some \<lparr>queue = [0], version = 2\<rparr>"
proof -
  let ?w = "(freshWorld [''a'', ''b''])\<lparr>queuesFile := Some (JsonText [1 \<mapsto> Legacy 5])\<rparr>"
  have h1: "queuesFile ?w = Some (JsonText [1 \<mapsto> Legacy 5])" by simp
  have h2: "[1 \<mapsto> Legacy 5] (1::int) = Some (Legacy 5)" by simp
  have q: "fst (buildNewQueue ?w) = [1, 0]"
    by (rule buildNewQueue_two [of _ "''a''" "''b''"]) (simp_all add: freshWorld_def)
  have n: "int (length (quotes ?w)) = 2" by (simp add: freshWorld_def)
  from legacy_entry_regenerates [OF h1 h2]
  have a: "loadUserQueues ?w 1 = Some \<lparr>queue = [], version = int (length (quotes ?w))\<rparr>"
    and b: "userQueues (snd (getNextQuoteForUser (?w\<lparr>userQueues := loadUserQueues ?w\<rparr>) 1)) 1 =
              Some \<lparr>queue = tl (fst (buildNewQueue ?w)), version = int (length (quotes ?w))\<rparr>"
    by blast+
  from a have a': "loadUserQueues ?w 1 = Some \<lparr>queue = [], version = 2\<rparr>"
    by (simp only: n)
  from b have b': "userQueues (snd (getNextQuoteForUser (?w\<lparr>userQueues := loadUserQueues ?w\<rparr>) 1)) 1 =
                     Some \<lparr>queue = [0], version = 2\<rparr>"
    by (simp only: n q list.sel)
  from a' b' show ?thesis by blast
qed

section \<open>The empty corpus\<close>

lemma buildNewQueue_empty: "quotes w = [] \<Longrightarrow> fst (buildNewQueue w) = []"
  by (simp add: buildNewQueue_def fisherYatesShuffle_def)

lemma quoteAt_empty: "quoteAt [] i = Undefined"
  by (cases i) (simp_all add: quoteAt_def)

lemma sendDailyQuote_outbox:
  "outbox (sendDailyQuote w u) =
     outbox w @
       (if writable w
        then [(u, DailyQuote (interpolate (quoteAt (quotes w)
                (case queue (regenerated w u) of [] \<Rightarrow> Undefined | i # _ \<Rightarrow> Defined i))))]
        else [])"
  using getNext_result [of w u] getNext_world [of w u]
  by (cases "getNextQuoteForUser w u")
     (auto simp: sendDailyQuote_def sendMessage_def split: sum.splits)

lemma sendDailyQuote_errorLog:
  "errorLog (sendDailyQuote w u) = errorLog w @ (if writable w \<and> blocked w u then [u] else [])"
  using getNext_result [of w u] getNext_world [of w u]
  by (cases "getNextQuoteForUser w u")
     (auto simp: sendDailyQuote_def sendMessage_def split: sum.splits)

lemma sendDailyQuote_frame:
  "writable (sendDailyQuote w u) = writable w \<and> blocked (sendDailyQuote w u) = blocked w \<and>
   users (sendDailyQuote w u) = users w \<and> quotes (sendDailyQuote w u) = quotes w"
  using getNext_result [of w u] getNext_world [of w u]
  by (cases "getNextQuoteForUser w u")
     (auto simp: sendDailyQuote_def sendMessage_def split: sum.splits)

text \<open>
  Claim C1 says that with an empty corpus \<open>getNextQuoteForUser\<close> reports that no content
  is available instead of popping from an empty queue. The code has no such check: the
  regenerated queue is empty, \<open>shift\<close> on it gives \<open>undefined\<close>, the function returns
  \<open>quotes[undefined]\<close>, which is \<open>undefined\<close>, and the daily fan-out sends the text
  \<open>undefined\<close> as the quote.
\<close>

theorem empty_corpus_sends_undefined:
  assumes "quotes w = []" and "writable w"
  shows "fst (buildNewQueue w) = [] \<and> shift (fst (buildNewQueue w)) = (Undefined, []) \<and>
         fst (getNextQuoteForUser w u) = Inr Undefined \<and>
         outbox (sendDailyQuote w u) = outbox w @ [(u, DailyQuote ''undefined'')]"
  using assms
  by (simp add: getNext_result sendDailyQuote_outbox shift_def quoteAt_empty interpolate_def
      buildNewQueue_empty)

theorem empty_corpus_sends_undefined_witness:
  "quotes ((freshWorld [])\<lparr>users := [42]\<rparr>) = [] \<and> writable ((freshWorld [])\<lparr>users := [42]\<rparr>) \<and>
   fst (getNextQuoteForUser ((freshWorld [])\<lparr>users := [42]\<rparr>) 42) = Inr Undefined \<and>
   outbox (sendDailyQuotesToUsers ((freshWorld [])\<lparr>users := [42]\<rparr>)) =
     [(42, DailyQuote ''undefined'')]"
proof -
  let ?w = "(freshWorld [])\<lparr>users := [42]\<rparr>"
  have h1: "quotes ?w = []" and h2: "writable ?w" and o: "outbox ?w = []"
    by (simp_all add: freshWorld_def)
  have "sendDailyQuotesToUsers ?w = sendDailyQuote ?w 42"
    by (simp add: sendDailyQuotesToUsers_def)
  then show ?thesis
    using empty_corpus_sends_undefined [OF h1 h2, of 42] h1 h2 o by simp
qed

section \<open>Fan-out of the daily quotes\<close>

lemma fanout_attempts:
  "map fst (outbox (foldl sendDailyQuote w us)) =
     map fst (outbox w) @ (if writable w then us else []) \<and>
   errorLog (foldl sendDailyQuote w us) =
     errorLog w @ (if writable w then filter (blocked w) us else [])"
proof (induction us arbitrary: w)
  case Nil
  then show ?case by simp
next
  case (Cons u us)
  let ?w1 = "sendDailyQuote w u"
  have w1: "writable ?w1 = writable w" and b1: "blocked ?w1 = blocked w"
    using sendDailyQuote_frame [of w u] by simp_all
  from Cons.IH [of ?w1] show ?case
    by (simp add: sendDailyQuote_outbox sendDailyQuote_errorLog w1 b1)
qed

text \<open>
  Claim C7. \<open>sendDailyQuotesToUsers\<close> calls \<open>bot.sendMessage\<close> once for every known
  user, in order, when the store accepts the writes (and for nobody otherwise), whatever
  the transport does: the recipients of the attempts are the same for every \<open>blocked\<close>.
  A rejected send for one recipient prevents no attempt for another, and the recipients
  logged as failed are exactly the ones whose send was rejected.
\<close>

theorem fanout_isolates_failures:
  "map fst (outbox (sendDailyQuotesToUsers w)) =
     map fst (outbox w) @ (if writable w then users w else []) \<and>
   map fst (outbox (sendDailyQuotesToUsers (w\<lparr>blocked := b\<rparr>))) =
     map fst (outbox (sendDailyQuotesToUsers w)) \<and>
   mset (errorLog (sendDailyQuotesToUsers w)) =
     mset (errorLog w) + mset (if writable w then filter (blocked w) (users w) else [])"
  using fanout_attempts [of w "users w"] fanout_attempts [of "w\<lparr>blocked := b\<rparr>" "users w"]
  by (simp add: sendDailyQuotesToUsers_def)

theorem fanout_isolates_failures_witness:
  "map fst (outbox (sendDailyQuotesToUsers
      ((freshWorld [''a'', ''b''])\<lparr>users := [1, 2, 3], blocked := (\<lambda>c. c = 1)\<rparr>))) = [1, 2, 3] \<and>
   mset (errorLog (sendDailyQuotesToUsers
      ((freshWorld [''a'', ''b''])\<lparr>users := [1, 2, 3], blocked := (\<lambda>c. c = 1)\<rparr>))) = {#1#}"
proof -
  let ?w = "(freshWorld [''a'', ''b''])\<lparr>users := [1, 2, 3], blocked := (\<lambda>c. c = 1)\<rparr>"
  from fanout_isolates_failures [of ?w "blocked ?w"]
  have "map fst (outbox (sendDailyQuotesToUsers ?w)) =
          map fst (outbox ?w) @ (if writable ?w then users ?w else [])"
    and "mset (errorLog (sendDailyQuotesToUsers ?w)) =
          mset (errorLog ?w) + mset (if writable ?w then filter (blocked ?w) (users ?w) else [])"
    by blast+
  then show ?thesis by (simp add: freshWorld_def)
qed

section \<open>Loading the persisted documents at startup\<close>

text \<open>
  Claim C3 says that every persisted document degrades to a default when its file is
  missing or holds malformed JSON. \<open>loadUsers\<close>, \<open>loadUserQueues\<close> and \<open>readLines\<close> do
  (each has its \<open>try\<close>/\<open>catch\<close>), and line 94 handles the empty text with
  \<open>|| "[]"\<close>; but line 94 stands outside any \<open>try\<close>, so a missing
  \<open>greeted_users.json\<close> (\<open>ENOENT\<close>) or a malformed one (\<open>SyntaxError\<close>) ends the
  module before the bot starts.
\<close>

theorem startup_aborts_on_greeted_file:
  "loadUsers (w\<lparr>usersFile := None\<rparr>) = [] \<and>
   loadUsers (w\<lparr>usersFile := Some CorruptText\<rparr>) = [] \<and>
   loadUserQueues (w\<lparr>queuesFile := None\<rparr>) = Map.empty \<and>
   loadUserQueues (w\<lparr>queuesFile := Some CorruptText\<rparr>) = Map.empty \<and>
   readLines None = [] \<and>
   loadGreetedUsers (w\<lparr>greetedFile := Some EmptyText\<rparr>) = Inr [] \<and>
   startup (w\<lparr>greetedFile := None\<rparr>) = Inl ENOENT \<and>
   startup (w\<lparr>greetedFile := Some CorruptText\<rparr>) = Inl SyntaxError"
  by (simp add: loadUsers_def loadUserQueues_def readLines_def loadGreetedUsers_def startup_def
      readFileSync_def JSON_parse_def JSON_stringify_def newSet_def)

theorem startup_aborts_on_greeted_file_witness:
  "startup (freshWorld [''a'']) = Inl ENOENT \<and>
   startup ((freshWorld [''a''])\<lparr>greetedFile := Some CorruptText\<rparr>) = Inl SyntaxError"
proof -
  have "(freshWorld [''a''])\<lparr>greetedFile := None\<rparr> = freshWorld [''a'']"
    by (simp add: freshWorld_def)
  then show ?thesis
    using startup_aborts_on_greeted_file [of "freshWorld [''a'']"] by simp
qed

section \<open>The article feed\<close>

lemma getRandomArticle_fresh:
  assumes "fst (getRandomArticle w) = Some url"
  shows "url \<in> set dummy \<and> url \<notin> set (readLines (postedFile w))"
proof -
  let ?options = "filter (\<lambda>u. u \<notin> set (readLines (postedFile w))) dummy"
  from assms have ne: "?options \<noteq> []"
    by (auto simp: getRandomArticle_def Let_def)
  then have "fst (randomIndex w (length ?options)) < length ?options"
    by (intro randomIndex_less) simp
  then have "?options ! fst (randomIndex w (length ?options)) \<in> set ?options"
    by (rule nth_mem)
  moreover from assms ne have "url = ?options ! fst (randomIndex w (length ?options))"
    by (simp add: getRandomArticle_def Let_def split_beta)
  ultimately have "url \<in> set ?options" by (simp only:)
  then show ?thesis by simp
qed

lemma getRandomArticle_exhausted:
  assumes "set dummy \<subseteq> set (readLines (postedFile w))"
  shows "getRandomArticle w = (None, w)"
proof -
  have "filter (\<lambda>u. u \<notin> set (readLines (postedFile w))) dummy = []"
    using assms by (auto simp: filter_empty_conv)
  then show ?thesis by (simp add: getRandomArticle_def)
qed

lemma randomArticles_exhausted:
  assumes "set dummy \<subseteq> set (readLines (postedFile w))"
  shows "randomArticles n w = (replicate n None, w)"
  using assms by (induction n) (simp_all add: getRandomArticle_exhausted)

lemma splitLines_nonempty: "splitLines s \<noteq> []"
  by (cases s) (simp_all split: list.splits)

lemma splitLines_append: "splitLines (a @ CHR 0x0A # b) = splitLines a @ splitLines b"
  by (induction a) (auto simp: splitLines_nonempty split: list.splits)

lemma splitLines_single: "CHR 0x0A \<notin> set s \<Longrightarrow> splitLines s = [s]"
  by (induction s) auto

lemma readLines_appended:
  assumes "t = [] \<or> last t = CHR 0x0A" and "CHR 0x0A \<notin> set url" and "url \<noteq> []"
  shows "url \<in> set (readLines (Some (t @ url @ [CHR 0x0A])))"
proof -
  have "splitLines (t @ url @ [CHR 0x0A]) = splitLines (t @ url) @ ([] # [])"
    using splitLines_append [of "t @ url" "[]"] by simp
  moreover have "url \<in> set (splitLines (t @ url))"
  proof (cases "t = []")
    case True
    then show ?thesis using assms(2) by (simp add: splitLines_single)
  next
    case False
    with assms(1) have "t = butlast t @ [CHR 0x0A]"
      using append_butlast_last_id [of t] by simp
    then have "t @ url = butlast t @ CHR 0x0A # url" by (metis append_Cons append_Nil append_assoc)
    then have "splitLines (t @ url) = splitLines (butlast t) @ splitLines url"
      by (simp only: splitLines_append)
    then show ?thesis
      using assms(2) by (simp add: splitLines_single)
  qed
  ultimately show ?thesis using assms(3) by (simp add: readLines_def)
qed

lemma dummy_lines: "url \<in> set dummy \<Longrightarrow> CHR 0x0A \<notin> set url \<and> url \<noteq> []"
  by (auto simp: dummy_def)

lemma getRandomArticle_records:
  assumes "writable w"
    and "postedFile w = None \<or> postedFile w = Some t \<and> (t = [] \<or> last t = CHR 0x0A)"
    and "fst (getRandomArticle w) = Some url"
  shows "url \<in> set (readLines (postedFile (snd (getRandomArticle w))))"
proof -
  let ?t = "case postedFile w of None \<Rightarrow> [] | Some t \<Rightarrow> t"
  have url: "url \<in> set dummy" using assms(3) getRandomArticle_fresh by blast
  have "postedFile (snd (getRandomArticle w)) = Some (?t @ url @ [CHR 0x0A])"
    using assms(1,3)
    by (auto simp: getRandomArticle_def Let_def appendLine_def randomIndex_def split: if_splits)
  moreover have "?t = [] \<or> last ?t = CHR 0x0A" using assms(2) by auto
  ultimately show ?thesis using readLines_appended dummy_lines [OF url] by simp
qed

text \<open>
  Claim C6. \<open>getRandomArticle\<close> returns only pool items that are not among the lines of
  \<open>posted_articles.txt\<close> (the served set) at the time of the call; once every pool item
  is in the served set, every further call returns \<open>null\<close> and changes nothing. When
  the store accepts the append and the file is absent, empty or ends with a newline, the
  returned item is in the served set afterwards.
\<close>

theorem article_never_repeats:
  "(fst (getRandomArticle w) = Some url \<longrightarrow>
      url \<in> set dummy \<and> url \<notin> set (readLines (postedFile w))) \<and>
   (set dummy \<subseteq> set (readLines (postedFile w)) \<longrightarrow>
      randomArticles n w = (replicate n None, w)) \<and>
   (writable w \<and> (postedFile w = None \<or> postedFile w = Some t \<and> (t = [] \<or> last t = CHR 0x0A)) \<and>
    fst (getRandomArticle w) = Some url \<longrightarrow>
      url \<in> set (readLines (postedFile (snd (getRandomArticle w)))))"
  using getRandomArticle_fresh randomArticles_exhausted getRandomArticle_records by blast

theorem article_never_repeats_witness:
  "fst (getRandomArticle twoPosted) = Some ''https://example.com/article3'' \<and>
   ''https://example.com/article3'' \<notin> set (readLines (postedFile twoPosted)) \<and>
   ''https://example.com/article3'' \<in> set (readLines (postedFile (snd (getRandomArticle twoPosted)))) \<and>
   randomArticles 2 (snd (getRandomArticle twoPosted)) =
     ([None, None], snd (getRandomArticle twoPosted))"
proof -
  let ?a3 = "''https://example.com/article3''"
  let ?t = "''https://example.com/article1\<newline>https://example.com/article2\<newline>''"
  let ?w = "snd (getRandomArticle twoPosted)"
  have wr: "writable twoPosted" and pf: "postedFile twoPosted = Some ?t"
    and lst: "last ?t = CHR 0x0A" and rnd: "random twoPosted (drawn twoPosted) = 0"
    by (simp_all add: twoPosted_def freshWorld_def)
  have lines: "readLines (Some ?t) =
      [''https://example.com/article1'', ''https://example.com/article2'']"
    by (simp add: readLines_def)
  have r: "fst (getRandomArticle twoPosted) = Some ?a3"
    by (simp add: getRandomArticle_def pf lines dummy_def randomIndex_def rnd Let_def)
  from article_never_repeats [of twoPosted ?a3 0 ?t] r wr pf lst
  have fresh: "?a3 \<notin> set (readLines (postedFile twoPosted))"
    and recorded: "?a3 \<in> set (readLines (postedFile ?w))"
    by blast+
  have "postedFile ?w = Some (?t @ ?a3 @ [CHR 0x0A])"
    by (simp add: getRandomArticle_def pf lines dummy_def randomIndex_def rnd Let_def appendLine_def wr)
  then have "set dummy \<subseteq> set (readLines (postedFile ?w))"
    by (simp add: readLines_def dummy_def)
  with article_never_repeats [of ?w ?a3 2 ?t]
  have "randomArticles 2 ?w = (replicate 2 None, ?w)" by blast
  then have "randomArticles 2 ?w = ([None, None], ?w)" by (simp add: numeral_2_eq_2)
  with r fresh recorded show ?thesis by blast
qed

section \<open>The scheduled channel broadcast\<close>






section \<open>Greeting once\<close>

lemma storeUser_frame:
  "greetedUsers (snd (storeUser w m)) = greetedUsers w \<and> outbox (snd (storeUser w m)) = outbox w \<and>
   writable (snd (storeUser w m)) = writable w \<and> blocked (snd (storeUser w m)) = blocked w \<and>
   greetedFile (snd (storeUser w m)) = greetedFile w"
  by (simp add: storeUser_def saveUsers_def)

lemma storeUser_result:
  "fst (storeUser w m) = (if msg_from m \<in> set (users w) \<or> writable w then Inr () else Inl EACCES)"
  by (simp add: storeUser_def saveUsers_def)

lemma greetDue_storeUser: "greetDue (snd (storeUser w m)) m = greetDue w m"
  by (simp add: greetDue_def storeUser_frame)

lemma greetBegin_result:
  "fst (greetBegin w m) =
     (if fst (storeUser w m) \<noteq> Inr () then Inl EACCES
      else if \<not> greetDue w m then Inr False
      else if blocked w (msg_chat m) then Inl TransportError
      else Inr True)"
  using storeUser_frame [of w m] greetDue_storeUser [of w m] storeUser_result [of w m]
  by (cases "storeUser w m")
     (simp add: greetBegin_def sendMessage_def split: sum.splits)

lemma greetBegin_frame:
  "greetedUsers (snd (greetBegin w m)) = greetedUsers w \<and>
   writable (snd (greetBegin w m)) = writable w \<and>
   greetedFile (snd (greetBegin w m)) = greetedFile w \<and>
   outbox (snd (greetBegin w m)) =
     (if fst (storeUser w m) = Inr () \<and> greetDue w m then outbox w @ [(msg_chat m, Intro)]
      else outbox w)"
  using storeUser_frame [of w m] greetDue_storeUser [of w m]
  by (cases "storeUser w m")
     (simp add: greetBegin_def sendMessage_def split: sum.splits)

lemma greetOnce_result:
  "fst (greetOnce w m) =
     (if fst (storeUser w m) \<noteq> Inr () then Inl EACCES
      else if \<not> greetDue w m then Inr False
      else if blocked w (msg_chat m) then Inl TransportError
      else if writable w then Inr True
      else Inl EACCES)"
  using greetBegin_result [of w m] greetBegin_frame [of w m]
  by (cases "greetBegin w m") (simp add: greetOnce_def greetCommit_def Let_def)

lemma greetOnce_greetedUsers:
  "greetedUsers (snd (greetOnce w m)) =
     (if fst (storeUser w m) = Inr () \<and> greetDue w m \<and> \<not> blocked w (msg_chat m)
      then greetedUsers w @ [msg_from m] else greetedUsers w)"
  using greetBegin_result [of w m] greetBegin_frame [of w m]
  by (cases "greetBegin w m")
     (auto simp: greetOnce_def greetCommit_def Let_def setAdd_def greetDue_def)

lemma greetOnce_outbox:
  "outbox (snd (greetOnce w m)) =
     (if fst (storeUser w m) = Inr () \<and> greetDue w m then outbox w @ [(msg_chat m, Intro)]
      else outbox w)"
  using greetBegin_result [of w m] greetBegin_frame [of w m]
  by (cases "greetBegin w m")
     (auto simp: greetOnce_def greetCommit_def Let_def)

lemma greetOnce_greetedFile:
  "fst (greetOnce w m) = Inr True \<Longrightarrow>
   greetedFile (snd (greetOnce w m)) = Some (JsonText (greetedUsers w @ [msg_from m]))"
  using greetBegin_result [of w m] greetBegin_frame [of w m]
  by (cases "greetBegin w m")
     (auto simp: greetOnce_def greetCommit_def Let_def setAdd_def greetDue_def JSON_stringify_def
           split: if_splits)


lemma greetOnce_mono: "set (greetedUsers w) \<subseteq> set (greetedUsers (snd (greetOnce w m)))"
  by (auto simp: greetOnce_greetedUsers)

lemma greetOnce_True:
  "fst (greetOnce w m) = Inr True \<Longrightarrow> msg_from m \<in> set (greetedUsers (snd (greetOnce w m)))"
  by (simp add: greetOnce_result greetOnce_greetedUsers split: if_splits)

lemma greetOnce_already:
  "msg_from m \<in> set (greetedUsers w) \<Longrightarrow> fst (greetOnce w m) \<noteq> Inr True"
  by (simp add: greetOnce_result greetDue_def)

lemma greetedCount_Cons:
  "greetedCount u (m # ms) (r # rs) =
     (if msg_from m = u \<and> r = Inr True then 1 else 0) + greetedCount u ms rs"
  by (simp add: greetedCount_def)

lemma greetAll_Cons:
  "fst (greetAll w (m # ms)) = fst (greetOnce w m) # fst (greetAll (snd (greetOnce w m)) ms)"
  by (simp add: split_beta)

lemma greetAll_already:
  "u \<in> set (greetedUsers w) \<Longrightarrow> greetedCount u ms (fst (greetAll w ms)) = 0"
proof (induction ms arbitrary: w)
  case Nil
  then show ?case by (simp add: greetedCount_def)
next
  case (Cons m ms)
  have "u \<in> set (greetedUsers (snd (greetOnce w m)))"
    using Cons.prems greetOnce_mono by blast
  then have "greetedCount u ms (fst (greetAll (snd (greetOnce w m)) ms)) = 0"
    by (rule Cons.IH)
  moreover have "\<not> (msg_from m = u \<and> fst (greetOnce w m) = Inr True)"
    using Cons.prems greetOnce_already by blast
  ultimately show ?case by (simp only: greetAll_Cons greetedCount_Cons) simp
qed

lemma greetAll_at_most_once: "greetedCount u ms (fst (greetAll w ms)) \<le> 1"
proof (induction ms arbitrary: w)
  case Nil
  then show ?case by (simp add: greetedCount_def)
next
  case (Cons m ms)
  show ?case
  proof (cases "msg_from m = u \<and> fst (greetOnce w m) = Inr True")
    case True
    then have "u \<in> set (greetedUsers (snd (greetOnce w m)))"
      using greetOnce_True by blast
    then have "greetedCount u ms (fst (greetAll (snd (greetOnce w m)) ms)) = 0"
      by (rule greetAll_already)
    then show ?thesis using True by (simp only: greetAll_Cons greetedCount_Cons) simp
  next
    case False
    then show ?thesis
      using Cons.IH [of "snd (greetOnce w m)"]
      by (simp only: greetAll_Cons greetedCount_Cons) simp
  qed
qed

text \<open>
  Claim C5 says that the greeting returns true exactly once per user and process
  lifetime. The greeted set is read from \<open>greeted_users.json\<close> at startup, so a user
  greeted in an earlier run is greeted by no message of this run.
\<close>

theorem greeted_in_earlier_run_never_greeted:
  "(case startup ((freshWorld [])\<lparr>greetedFile := Some (JsonText [7])\<rparr>) of
      Inl e \<Rightarrow> False
    | Inr w \<Rightarrow> fst (greetAll w [hello, hello]) = [Inr False, Inr False])"
  by (simp add: startup_def loadUserQueues_def loadUsers_def loadGreetedUsers_def readFileSync_def
      JSON_parse_def newSet_def setAdd_def sendDailyQuotesToUsers_def freshWorld_def
      greetOnce_result storeUser_result greetDue_def hello_def split_beta
      greetOnce_def greetBegin_def storeUser_def saveUsers_def)

text \<open>
  Claim C5, amended. When the handlers of the inbound messages run one after the other,
  each user is greeted by at most one message of the run, and a user in the greeted set
  by none. A message is greeted (the introduction is sent, the user is added to
  \<open>greetedUsers\<close> and the set is written to \<open>greeted_users.json\<close>) when its sender is
  not in the greeted set, its text is non-empty and does not start with \<open>/\<close>, the send
  succeeds and the store accepts the write; a message that fails the condition of line
  122 is not greeted and changes neither the outbox nor the greeted set.
\<close>

theorem greeted_at_most_once:
  "greetedCount u ms (fst (greetAll w ms)) \<le> 1 \<and>
   (u \<in> set (greetedUsers w) \<longrightarrow> greetedCount u ms (fst (greetAll w ms)) = 0) \<and>
   (greetDue w m \<and> writable w \<and> \<not> blocked w (msg_chat m) \<longrightarrow>
      fst (greetOnce w m) = Inr True \<and>
      outbox (snd (greetOnce w m)) = outbox w @ [(msg_chat m, Intro)] \<and>
      greetedUsers (snd (greetOnce w m)) = greetedUsers w @ [msg_from m] \<and>
      greetedFile (snd (greetOnce w m)) = Some (JsonText (greetedUsers w @ [msg_from m]))) \<and>
   (\<not> greetDue w m \<longrightarrow>
      fst (greetOnce w m) \<noteq> Inr True \<and> outbox (snd (greetOnce w m)) = outbox w \<and>
      greetedUsers (snd (greetOnce w m)) = greetedUsers w)"
proof -
  have first: "fst (greetOnce w m) = Inr True \<and>
      outbox (snd (greetOnce w m)) = outbox w @ [(msg_chat m, Intro)] \<and>
      greetedUsers (snd (greetOnce w m)) = greetedUsers w @ [msg_from m] \<and>
      greetedFile (snd (greetOnce w m)) = Some (JsonText (greetedUsers w @ [msg_from m]))"
    if "greetDue w m" "writable w" "\<not> blocked w (msg_chat m)"
  proof -
    have r: "fst (greetOnce w m) = Inr True"
      using that by (simp add: greetOnce_result storeUser_result)
    then show ?thesis
      using that greetOnce_greetedFile [OF r]
      by (simp add: greetOnce_outbox greetOnce_greetedUsers storeUser_result)
  qed
  have other: "fst (greetOnce w m) \<noteq> Inr True \<and> outbox (snd (greetOnce w m)) = outbox w \<and>
      greetedUsers (snd (greetOnce w m)) = greetedUsers w"
    if "\<not> greetDue w m"
    using that by (simp add: greetOnce_result greetOnce_outbox greetOnce_greetedUsers)
  show ?thesis
    using greetAll_at_most_once [of u ms w] greetAll_already [of u w ms] first other by blast
qed

theorem greeted_at_most_once_witness:
  "fst (greetOnce (freshWorld []) hello) = Inr True \<and>
   greetedUsers (snd (greetOnce (freshWorld []) hello)) = [7] \<and>
   greetedCount 7 [hello, hello] (fst (greetAll (freshWorld []) [hello, hello])) \<le> 1"
proof -
  have "greetDue (freshWorld []) hello" and "writable (freshWorld [])"
    and "\<not> blocked (freshWorld []) (msg_chat hello)"
    and "greetedUsers (freshWorld []) = []" and "msg_from hello = 7"
    by (simp_all add: greetDue_def freshWorld_def hello_def startsWith_def)
  with greeted_at_most_once [of 7 "[hello, hello]" "freshWorld []" hello]
  show ?thesis by simp
qed

text \<open>
  The handler adds the user to \<open>greetedUsers\<close> only after the awaited send. A second
  message of the same user whose handler starts before that send has resolved passes the
  check of line 122 as well, and the introduction goes out twice.
\<close>

lemma interleaved_handlers_greet_twice:
  "fst (greetBegin (freshWorld []) hello) = Inr True \<and>
   fst (greetBegin (snd (greetBegin (freshWorld []) hello)) hello) = Inr True \<and>
   outbox (snd (greetBegin (snd (greetBegin (freshWorld []) hello)) hello)) =
     [(7, Intro), (7, Intro)]"
  by (simp add: greetBegin_def storeUser_def saveUsers_def sendMessage_def greetDue_def
      hello_def freshWorld_def startsWith_def setAdd_def JSON_stringify_def)

end
